theory Spec2Isabelle
  imports
    Main
    "HOL-Library.Word"
    "HOL-Library.Signed_Division"
begin

section \<open>Machine integers of the C++ sources\<close>

text \<open>
  The sources are POSIX C++ (\<^verbatim>\<open>semaphore.h\<close>, \<^verbatim>\<open>clock_gettime\<close>); on the LP64
  targets they build for, \<^verbatim>\<open>long\<close>, \<^verbatim>\<open>time_t\<close>, \<^verbatim>\<open>size_t\<close> and the
  representation of \<^verbatim>\<open>std::chrono::milliseconds\<close> are 64 bits wide and
  \<^verbatim>\<open>unsigned int\<close> is 32 bits wide.  C++ \<^verbatim>\<open>/\<close> and \<^verbatim>\<open>%\<close> on signed operands
  truncate towards zero, which is \<open>sdiv\<close> and \<open>smod\<close> on the signed reading.
\<close>

type_synonym i64 = "64 word"
type_synonym u64 = "64 word"
type_synonym u32 = "32 word"

definition sdiv64 :: "i64 \<Rightarrow> i64 \<Rightarrow> i64" where
  "sdiv64 a b = word_of_int (sint a sdiv sint b)"

definition smod64 :: "i64 \<Rightarrow> i64 \<Rightarrow> i64" where
  "smod64 a b = word_of_int (sint a smod sint b)"

section \<open>Threads and condition variables\<close>

text \<open>
  Every class below guards its fields with one mutex, so the code a thread runs between
  taking that mutex and giving it up (at the end of the scope, or inside
  \<^verbatim>\<open>condition_variable::wait\<close>) is one atomic step.  A thread inside \<^verbatim>\<open>wait\<close> is
  either still blocked, or it has been unblocked (by a notification, or spuriously) and
  has yet to take the mutex again and test its condition.  \<^verbatim>\<open>notify_one\<close> unblocks one
  of the threads blocked at that moment, whichever the scheduler picks (\<open>ch\<close>), and
  nobody when none is blocked; \<^verbatim>\<open>notify_all\<close> unblocks all of them.  Both return the
  threads they unblocked.
\<close>

type_synonym thread_id = nat

datatype 'a outcome = Returned 'a | Blocks

definition blocked_threads :: "('pc \<Rightarrow> bool) \<Rightarrow> 'pc list \<Rightarrow> nat list" where
  "blocked_threads blk pcs = filter (\<lambda>i. blk (pcs ! i)) [0..<length pcs]"

definition notify_one :: "nat \<Rightarrow> ('pc \<Rightarrow> bool) \<Rightarrow> ('pc \<Rightarrow> 'pc) \<Rightarrow> 'pc list \<Rightarrow> nat list \<times> 'pc list" where
  "notify_one ch blk wake pcs =
     (case blocked_threads blk pcs of
        [] \<Rightarrow> ([], pcs)
      | w # ws \<Rightarrow> (let i = (w # ws) ! (ch mod length (w # ws)) in ([i], pcs[i := wake (pcs ! i)])))"

definition notify_all :: "('pc \<Rightarrow> bool) \<Rightarrow> ('pc \<Rightarrow> 'pc) \<Rightarrow> 'pc list \<Rightarrow> nat list \<times> 'pc list" where
  "notify_all blk wake pcs =
     (blocked_threads blk pcs, map (\<lambda>pc. if blk pc then wake pc else pc) pcs)"

section \<open>SafeMutex (Synchronization.cpp)\<close>

text \<open>
  \<open>mtx\<close> is the \<^verbatim>\<open>std::timed_mutex\<close>, as the thread holding it; \<open>owner\<close> is the
  atomic \<^verbatim>\<open>std::thread::id\<close>, with \<open>None\<close> for the id of no thread.  A call is seen
  from its thread alone: \<^verbatim>\<open>try_lock\<close> succeeds exactly on a free mutex, and
  \<^verbatim>\<open>try_lock_for\<close> on a held mutex gives up when its timeout has passed.  Next to the
  source's \<^verbatim>\<open>bool\<close>, \<open>lock\<close> returns the milliseconds the call spent blocked.
\<close>

record SafeMutex =
  mtx :: "thread_id option"
  mname :: string
  owner :: "thread_id option"
  lockCount :: int

definition SafeMutex_ctor :: "string \<Rightarrow> SafeMutex" where
  "SafeMutex_ctor mutexName =
     \<lparr>mtx = None, mname = (if mutexName = [] then ''unnamed'' else mutexName),
      owner = None, lockCount = 0\<rparr>"

definition try_lock :: "thread_id \<Rightarrow> thread_id option \<Rightarrow> bool \<times> thread_id option" where
  "try_lock t m = (case m of None \<Rightarrow> (True, Some t) | Some h \<Rightarrow> (False, m))"

definition try_lock_for ::
    "thread_id \<Rightarrow> i64 \<Rightarrow> thread_id option \<Rightarrow> (bool \<times> int) \<times> thread_id option" where
  "try_lock_for t timeout m =
     (case m of None \<Rightarrow> ((True, 0), Some t) | Some h \<Rightarrow> ((False, max 0 (sint timeout)), m))"

definition lock :: "thread_id \<Rightarrow> i64 \<Rightarrow> SafeMutex \<Rightarrow> (bool \<times> int) \<times> SafeMutex" where
  "lock thisThreadId timeout s =
     (if owner s = Some thisThreadId then ((False, 0), s)
      else case try_lock_for thisThreadId timeout (mtx s) of
        ((True, w), m) \<Rightarrow>
          ((True, w), s\<lparr>mtx := m, owner := Some thisThreadId, lockCount := lockCount s + 1\<rparr>)
      | ((False, w), m) \<Rightarrow> ((False, w), s))"

definition tryLock :: "thread_id \<Rightarrow> SafeMutex \<Rightarrow> bool \<times> SafeMutex" where
  "tryLock thisThreadId s =
     (case try_lock thisThreadId (mtx s) of
        (True, m) \<Rightarrow>
          (True, s\<lparr>mtx := m, owner := Some thisThreadId, lockCount := lockCount s + 1\<rparr>)
      | (False, m) \<Rightarrow> (False, s))"

definition unlock :: "SafeMutex \<Rightarrow> SafeMutex" where
  "unlock s = s\<lparr>owner := None, lockCount := lockCount s - 1, mtx := None\<rparr>"

definition isLocked :: "SafeMutex \<Rightarrow> bool" where
  "isLocked s \<longleftrightarrow> owner s \<noteq> None"

text \<open>
  The calls threads make on one mutex, in the order they take effect.  \<^verbatim>\<open>unlock\<close> is
  for the holder only (``caller must ensure they own the lock''), so an \<open>Unlock\<close> by
  another thread does not occur.
\<close>

datatype mx_event = Lock thread_id i64 | TryLock thread_id | Unlock thread_id

fun mx_step :: "SafeMutex \<Rightarrow> mx_event \<Rightarrow> SafeMutex" where
  "mx_step s (Lock t timeout) = snd (lock t timeout s)"
| "mx_step s (TryLock t) = snd (tryLock t s)"
| "mx_step s (Unlock t) = (if mtx s = Some t then unlock s else s)"

definition mx_run :: "mx_event list \<Rightarrow> SafeMutex \<Rightarrow> SafeMutex" where
  "mx_run evs s = foldl mx_step s evs"

text \<open>The atomic \<open>owner\<close> names the thread that holds \<open>mtx\<close>, and nobody when it is free.\<close>

definition mx_consistent :: "SafeMutex \<Rightarrow> bool" where
  "mx_consistent s \<longleftrightarrow> owner s = mtx s"

section \<open>Semaphore (Synchronization.cpp)\<close>

text \<open>
  The POSIX semaphore \<^verbatim>\<open>sem_t\<close> is its counter.  \<^verbatim>\<open>sem_init\<close> fails with
  \<^verbatim>\<open>EINVAL\<close> when the initial value exceeds \<^verbatim>\<open>SEM_VALUE_MAX\<close>, and
  \<^verbatim>\<open>sem_post\<close> fails with \<^verbatim>\<open>EOVERFLOW\<close> when the counter is already there.
  A call is seen from its thread alone: \<^verbatim>\<open>sem_wait\<close> on a semaphore without a permit
  blocks.
\<close>

definition SEM_VALUE_MAX :: nat where
  "SEM_VALUE_MAX = 2147483647"

record timespec =
  tv_sec :: i64
  tv_nsec :: i64

record Semaphore =
  sem :: nat
  name :: string
  initialized :: bool

definition sem_init :: "u32 \<Rightarrow> nat option" where
  "sem_init v = (if unat v \<le> SEM_VALUE_MAX then Some (unat v) else None)"

definition Semaphore_ctor :: "u32 \<Rightarrow> string \<Rightarrow> Semaphore" where
  "Semaphore_ctor v semName =
     (let nm = (if semName = [] then ''unnamed'' else semName) in
      case sem_init v of
        Some c \<Rightarrow> \<lparr>sem = c, name = nm, initialized = True\<rparr>
      | None \<Rightarrow> \<lparr>sem = 0, name = nm, initialized = False\<rparr>)"

definition sem_wait :: "Semaphore \<Rightarrow> bool outcome \<times> Semaphore" where
  "sem_wait s = (if 0 < sem s then (Returned True, s\<lparr>sem := sem s - 1\<rparr>) else (Blocks, s))"

definition sem_trywait :: "Semaphore \<Rightarrow> bool \<times> Semaphore" where
  "sem_trywait s = (if 0 < sem s then (True, s\<lparr>sem := sem s - 1\<rparr>) else (False, s))"

text \<open>
  \<^verbatim>\<open>sem_timedwait\<close>, as glibc has it: a deadline whose \<^verbatim>\<open>tv_nsec\<close> is outside
  \<open>[0, 1000000000)\<close> is refused with \<^verbatim>\<open>EINVAL\<close> before anything else; otherwise the
  call takes a permit if there is one; otherwise the calling thread, alone, stays blocked
  until the deadline and gets \<^verbatim>\<open>ETIMEDOUT\<close> then (\<open>Sem_ETIMEDOUT\<close> carries the time
  at which the call gave up, which is the deadline it was given).
\<close>

datatype timed_result = Sem_taken | Sem_EINVAL | Sem_ETIMEDOUT timespec

definition sem_timedwait :: "Semaphore \<Rightarrow> timespec \<Rightarrow> timed_result \<times> Semaphore" where
  "sem_timedwait s abs_timeout =
     (if sint (tv_nsec abs_timeout) < 0 \<or> 1000000000 \<le> sint (tv_nsec abs_timeout)
      then (Sem_EINVAL, s)
      else if 0 < sem s then (Sem_taken, s\<lparr>sem := sem s - 1\<rparr>)
      else (Sem_ETIMEDOUT abs_timeout, s))"

definition sem_post :: "Semaphore \<Rightarrow> bool \<times> Semaphore" where
  "sem_post s = (if sem s < SEM_VALUE_MAX then (True, s\<lparr>sem := sem s + 1\<rparr>) else (False, s))"

definition wait :: "Semaphore \<Rightarrow> bool outcome \<times> Semaphore" where
  "wait s = (if \<not> initialized s then (Returned False, s) else sem_wait s)"

definition tryWait :: "Semaphore \<Rightarrow> bool \<times> Semaphore" where
  "tryWait s = (if \<not> initialized s then (False, s) else sem_trywait s)"

text \<open>
  The deadline of \<^verbatim>\<open>timedWait\<close>, from the clock reading \<open>now\<close>:
  \<^verbatim>\<open>
    long nsec = ts.tv_nsec + (timeout.count() % 1000) * 1000000;
    ts.tv_sec += timeout.count() / 1000 + nsec / 1000000000;
    ts.tv_nsec = nsec % 1000000000;
  \<close>
\<close>

definition timedWait_deadline :: "timespec \<Rightarrow> i64 \<Rightarrow> timespec" where
  "timedWait_deadline now timeout =
     (let nsec = tv_nsec now + smod64 timeout 1000 * 1000000 in
      \<lparr>tv_sec = tv_sec now + (sdiv64 timeout 1000 + sdiv64 nsec 1000000000),
       tv_nsec = smod64 nsec 1000000000\<rparr>)"

text \<open>
  Next to the source's \<^verbatim>\<open>bool\<close> (\<^verbatim>\<open>sem_timedwait(&sem, &ts) == 0\<close>), \<open>timedWait\<close>
  returns the call of \<^verbatim>\<open>sem_timedwait\<close> it made, if it made one: the deadline \<^verbatim>\<open>ts\<close> it
  handed over and the answer it got.
\<close>

definition timedWait ::
    "Semaphore \<Rightarrow> timespec \<Rightarrow> i64 \<Rightarrow> (bool \<times> (timespec \<times> timed_result) option) \<times> Semaphore" where
  "timedWait s now timeout =
     (if \<not> initialized s then ((False, None), s)
      else
        (let ts = timedWait_deadline now timeout;
             (r, s1) = sem_timedwait s ts
         in ((r = Sem_taken, Some (ts, r)), s1)))"

definition post :: "Semaphore \<Rightarrow> bool \<times> Semaphore" where
  "post s = (if \<not> initialized s then (False, s) else sem_post s)"

definition getValue :: "Semaphore \<Rightarrow> int" where
  "getValue s = (if \<not> initialized s then - 1 else int (sem s))"

text \<open>A point in time as a number of nanoseconds.\<close>

definition timespec_ns :: "timespec \<Rightarrow> int" where
  "timespec_ns ts = sint (tv_sec ts) * 1000000000 + sint (tv_nsec ts)"

text \<open>
  A reading of \<^verbatim>\<open>CLOCK_REALTIME\<close>: a normalised \<^verbatim>\<open>timespec\<close> after the epoch whose
  seconds leave the upper half of \<^verbatim>\<open>time_t\<close> free.
\<close>

definition clock_reading :: "timespec \<Rightarrow> bool" where
  "clock_reading ts \<longleftrightarrow>
     0 \<le> sint (tv_sec ts) \<and> sint (tv_sec ts) < 2 ^ 62 \<and>
     0 \<le> sint (tv_nsec ts) \<and> sint (tv_nsec ts) < 1000000000"

section \<open>ThreadPool (ThreadPool.h, ThreadPool.cpp)\<close>

datatype ThreadState = IDLE | RUNNING | BLOCKED | TERMINATED


text \<open>
  A task is opaque to the pool; \<open>executed\<close> records, in order, the tasks whose call
  \<^verbatim>\<open>task()\<close> a worker has made.  \<open>workers\<close> holds, for each \<^verbatim>\<open>std::thread\<close>,
  where that thread is in \<^verbatim>\<open>workerThread\<close>:
  \<^item> \<open>LoopTop\<close>: at the head of the \<^verbatim>\<open>while (true)\<close>, before taking \<^verbatim>\<open>queueMutex\<close>;
  \<^item> \<open>InWait\<close>: blocked inside \<^verbatim>\<open>condition.wait\<close>;
  \<^item> \<open>Notified\<close>: unblocked, about to take \<^verbatim>\<open>queueMutex\<close> again and test the predicate;
  \<^item> \<open>Dequeued task\<close>: past the critical section, holding \<open>task\<close> (empty or not);
  \<^item> \<open>Executing t\<close>: inside \<^verbatim>\<open>task()\<close>;
  \<^item> \<open>Exited\<close>: returned.
\<close>

datatype 't worker_pc =
  LoopTop | InWait | Notified | Dequeued "'t option" | Executing 't | Exited

record 't ThreadPool =
  workers :: "'t worker_pc list"
  tasks :: "'t list"
  stop :: bool
  activeTasks :: nat
  workerStates :: "ThreadState list"
  executed :: "'t list"

definition ThreadPool_ctor :: "nat \<Rightarrow> 't ThreadPool" where
  "ThreadPool_ctor numThreads =
     \<lparr>workers = replicate numThreads LoopTop, tasks = [], stop = False, activeTasks = 0,
      workerStates = replicate numThreads IDLE, executed = []\<rparr>"

definition set_workerState :: "nat \<Rightarrow> ThreadState \<Rightarrow> 't ThreadPool \<Rightarrow> 't ThreadPool" where
  "set_workerState wid st p = p\<lparr>workerStates := (workerStates p)[wid := st]\<rparr>"

definition set_pc :: "nat \<Rightarrow> 't worker_pc \<Rightarrow> 't ThreadPool \<Rightarrow> 't ThreadPool" where
  "set_pc wid pc p = p\<lparr>workers := (workers p)[wid := pc]\<rparr>"

text \<open>The predicate of \<^verbatim>\<open>condition.wait\<close>: \<^verbatim>\<open>stop.load() || !tasks.empty()\<close>.\<close>

definition wait_pred :: "'t ThreadPool \<Rightarrow> bool" where
  "wait_pred p \<longleftrightarrow> stop p \<or> tasks p \<noteq> []"

text \<open>
  The rest of the critical section, once the predicate holds:
  \<^verbatim>\<open>
    if (stop.load() && tasks.empty()) { workerStates[id] = TERMINATED; return; }
    if (!tasks.empty()) { task = std::move(tasks.front()); tasks.pop(); }
  \<close>
\<close>

definition after_wait :: "nat \<Rightarrow> 't ThreadPool \<Rightarrow> 't ThreadPool" where
  "after_wait wid p =
     (if stop p \<and> tasks p = [] then set_pc wid Exited (set_workerState wid TERMINATED p)
      else case tasks p of
        [] \<Rightarrow> set_pc wid (Dequeued None) p
      | t # ts \<Rightarrow> set_pc wid (Dequeued (Some t)) (p\<lparr>tasks := ts\<rparr>))"

text \<open>The next step of worker \<open>wid\<close> (the source's \<^verbatim>\<open>id\<close>) in \<^verbatim>\<open>workerThread(id)\<close>; a blocked worker has none.\<close>

definition workerThread :: "nat \<Rightarrow> 't ThreadPool \<Rightarrow> 't ThreadPool" where
  "workerThread wid p =
     (if length (workers p) \<le> wid then p
      else case workers p ! wid of
        LoopTop \<Rightarrow>
          (let p1 = set_workerState wid IDLE p in
           if wait_pred p1 then after_wait wid p1 else set_pc wid InWait p1)
      | InWait \<Rightarrow> p
      | Notified \<Rightarrow> (if wait_pred p then after_wait wid p else set_pc wid InWait p)
      | Dequeued None \<Rightarrow> set_pc wid LoopTop p
      | Dequeued (Some t) \<Rightarrow>
          set_pc wid (Executing t)
            ((set_workerState wid RUNNING p)
               \<lparr>activeTasks := activeTasks p + 1, executed := executed p @ [t]\<rparr>)
      | Executing t \<Rightarrow> set_pc wid LoopTop (p\<lparr>activeTasks := activeTasks p - 1\<rparr>)
      | Exited \<Rightarrow> p)"

definition in_wait :: "'t worker_pc \<Rightarrow> bool" where
  "in_wait pc \<longleftrightarrow> pc = InWait"

datatype pool_error = Runtime_error string

text \<open>
  \<^verbatim>\<open>enqueue\<close> returns the future of the task, or throws; here it returns the workers its
  \<^verbatim>\<open>notify_one\<close> unblocked, or the exception, next to the pool it leaves behind.
\<close>

definition enqueue :: "'t \<Rightarrow> nat \<Rightarrow> 't ThreadPool \<Rightarrow> (pool_error + nat list) \<times> 't ThreadPool" where
  "enqueue task ch p =
     (if stop p then (Inl (Runtime_error ''Cannot enqueue on stopped ThreadPool''), p)
      else
        (let p1 = p\<lparr>tasks := tasks p @ [task]\<rparr>;
             (woken, ws) = notify_one ch in_wait (\<lambda>_. Notified) (workers p1)
         in (Inr woken, p1\<lparr>workers := ws\<rparr>)))"

text \<open>
  \<^verbatim>\<open>shutdown\<close> up to its joins: the test and the store of \<open>stop\<close> under \<^verbatim>\<open>queueMutex\<close>,
  then \<^verbatim>\<open>notify_all\<close>.  \<open>shutdown_join\<close> is the loop of joins that follows when the
  call did not return early: it blocks until every worker has returned.
\<close>

datatype shutdown_path = Already_stopped | Joining

definition shutdown_enter :: "'t ThreadPool \<Rightarrow> shutdown_path \<times> 't ThreadPool" where
  "shutdown_enter p =
     (if stop p then (Already_stopped, p)
      else
        (let p1 = p\<lparr>stop := True\<rparr> in
         (Joining, p1\<lparr>workers := snd (notify_all in_wait (\<lambda>_. Notified) (workers p1))\<rparr>)))"

definition shutdown_join :: "'t ThreadPool \<Rightarrow> unit outcome" where
  "shutdown_join p = (if list_all (\<lambda>pc. pc = Exited) (workers p) then Returned () else Blocks)"

definition getQueuedTasks :: "'t ThreadPool \<Rightarrow> nat" where
  "getQueuedTasks p = length (tasks p)"

definition getThreadState :: "u64 \<Rightarrow> 't ThreadPool \<Rightarrow> ThreadState \<times> 't ThreadPool" where
  "getThreadState wid p =
     (if length (workerStates p) \<le> unat wid then (TERMINATED, p)
      else (workerStates p ! unat wid, p))"

text \<open>
  What happens to a pool, in the order it takes effect: a worker takes its next step, a
  blocked worker wakes spuriously, a client calls \<^verbatim>\<open>enqueue\<close> or \<^verbatim>\<open>shutdown\<close>.
\<close>

datatype 't pool_event = Worker nat | Spurious nat | Enqueue 't nat | Shutdown

fun pool_step :: "'t ThreadPool \<Rightarrow> 't pool_event \<Rightarrow> 't ThreadPool" where
  "pool_step p (Worker wid) = workerThread wid p"
| "pool_step p (Spurious wid) =
     (if wid < length (workers p) \<and> workers p ! wid = InWait then set_pc wid Notified p else p)"
| "pool_step p (Enqueue task ch) = snd (enqueue task ch p)"
| "pool_step p Shutdown = snd (shutdown_enter p)"

definition pool_run :: "'t pool_event list \<Rightarrow> 't ThreadPool \<Rightarrow> 't ThreadPool" where
  "pool_run evs p = foldl pool_step p evs"

text \<open>
  A pool of one worker that is given task 1, starts it, is given the tasks 2 and 3 while
  the worker is inside task 1, and is then shut down.
\<close>

definition shutdown_with_queue :: "nat ThreadPool" where
  "shutdown_with_queue =
     pool_run [Enqueue 1 0, Worker 0, Worker 0, Enqueue 2 0, Enqueue 3 0, Shutdown]
       (ThreadPool_ctor 1)"

text \<open>A pool of one worker that is inside a task: no worker is blocked on the queue.\<close>

definition busy_pool :: "nat ThreadPool" where
  "busy_pool = pool_run [Enqueue 1 0, Worker 0, Worker 0] (ThreadPool_ctor 1)"

section \<open>RWLock (Synchronization.cpp)\<close>

text \<open>
  The three \<^verbatim>\<open>int\<close> counters are integers here: each counts threads that are at one
  place of the code, so none leaves the range of \<^verbatim>\<open>int\<close> while fewer than \<open>2^31\<close>
  threads use the lock.
\<close>

record RWLock =
  readers :: int
  writers :: int
  waitingWriters :: int

definition RWLock_ctor :: RWLock where
  "RWLock_ctor = \<lparr>readers = 0, writers = 0, waitingWriters = 0\<rparr>"

datatype cv = ReadCV | WriteCV

datatype notification = No_notify | Notify_one cv | Notify_all cv

text \<open>
  \<^verbatim>\<open>readLock\<close>: one test of \<^verbatim>\<open>while (writers > 0 || waitingWriters > 0) readCV.wait(lock)\<close>
  and, past the loop, \<^verbatim>\<open>readers++\<close>.  A thread runs it on entry and again each time it
  comes back from \<^verbatim>\<open>readCV.wait\<close>.
\<close>

definition readLock_attempt :: "RWLock \<Rightarrow> unit outcome \<times> RWLock" where
  "readLock_attempt l =
     (if writers l > 0 \<or> waitingWriters l > 0 then (Blocks, l)
      else (Returned (), l\<lparr>readers := readers l + 1\<rparr>))"

definition readUnlock :: "RWLock \<Rightarrow> notification \<times> RWLock" where
  "readUnlock l =
     (let l1 = l\<lparr>readers := readers l - 1\<rparr> in
      (if readers l1 = 0 then Notify_one WriteCV else No_notify, l1))"

text \<open>
  \<^verbatim>\<open>writeLock\<close>: \<^verbatim>\<open>waitingWriters++\<close> on entry, then one test of
  \<^verbatim>\<open>while (readers > 0 || writers > 0) writeCV.wait(lock)\<close> and, past the loop,
  \<^verbatim>\<open>waitingWriters--; writers++\<close>.
\<close>

definition writeLock_enter :: "RWLock \<Rightarrow> RWLock" where
  "writeLock_enter l = l\<lparr>waitingWriters := waitingWriters l + 1\<rparr>"

definition writeLock_attempt :: "RWLock \<Rightarrow> unit outcome \<times> RWLock" where
  "writeLock_attempt l =
     (if readers l > 0 \<or> writers l > 0 then (Blocks, l)
      else (Returned (), l\<lparr>waitingWriters := waitingWriters l - 1, writers := writers l + 1\<rparr>))"

definition writeUnlock :: "RWLock \<Rightarrow> notification \<times> RWLock" where
  "writeUnlock l =
     (let l1 = l\<lparr>writers := writers l - 1\<rparr> in
      (if waitingWriters l1 > 0 then Notify_one WriteCV else Notify_all ReadCV, l1))"

text \<open>
  The threads that use one lock.  A thread calls \<^verbatim>\<open>readUnlock\<close> only while it holds a
  read lock and \<^verbatim>\<open>writeUnlock\<close> only while it holds the write lock.
\<close>

datatype rw_pc =
  Outside | ReadWait | ReadWoken | Reading | WriteWait | WriteWoken | Writing

record rw_sys =
  rwlock :: RWLock
  threads :: "rw_pc list"

definition rw_init :: "nat \<Rightarrow> rw_sys" where
  "rw_init n = \<lparr>rwlock = RWLock_ctor, threads = replicate n Outside\<rparr>"

definition cv_blocked :: "cv \<Rightarrow> rw_pc" where
  "cv_blocked c = (case c of ReadCV \<Rightarrow> ReadWait | WriteCV \<Rightarrow> WriteWait)"

definition cv_woken :: "cv \<Rightarrow> rw_pc" where
  "cv_woken c = (case c of ReadCV \<Rightarrow> ReadWoken | WriteCV \<Rightarrow> WriteWoken)"

fun deliver :: "nat \<Rightarrow> notification \<Rightarrow> rw_pc list \<Rightarrow> nat list \<times> rw_pc list" where
  "deliver ch No_notify pcs = ([], pcs)"
| "deliver ch (Notify_one c) pcs = notify_one ch (\<lambda>pc. pc = cv_blocked c) (\<lambda>_. cv_woken c) pcs"
| "deliver ch (Notify_all c) pcs = notify_all (\<lambda>pc. pc = cv_blocked c) (\<lambda>_. cv_woken c) pcs"

definition set_thread :: "nat \<Rightarrow> rw_pc \<Rightarrow> rw_sys \<Rightarrow> rw_sys" where
  "set_thread t pc s = s\<lparr>threads := (threads s)[t := pc]\<rparr>"

definition rw_readLock_attempt :: "nat \<Rightarrow> rw_sys \<Rightarrow> rw_sys" where
  "rw_readLock_attempt t s =
     (case readLock_attempt (rwlock s) of
        (Blocks, l) \<Rightarrow> set_thread t ReadWait (s\<lparr>rwlock := l\<rparr>)
      | (Returned _, l) \<Rightarrow> set_thread t Reading (s\<lparr>rwlock := l\<rparr>))"

definition rw_writeLock_attempt :: "nat \<Rightarrow> rw_sys \<Rightarrow> rw_sys" where
  "rw_writeLock_attempt t s =
     (case writeLock_attempt (rwlock s) of
        (Blocks, l) \<Rightarrow> set_thread t WriteWait (s\<lparr>rwlock := l\<rparr>)
      | (Returned _, l) \<Rightarrow> set_thread t Writing (s\<lparr>rwlock := l\<rparr>))"

text \<open>
  Thread \<open>t\<close>, holding the lock, calls the unlock; the result is the threads the call
  unblocked and the system it leaves.
\<close>

definition rw_readUnlock :: "nat \<Rightarrow> nat \<Rightarrow> rw_sys \<Rightarrow> nat list \<times> rw_sys" where
  "rw_readUnlock t ch s =
     (let (n, l) = readUnlock (rwlock s);
          (woken, pcs) = deliver ch n ((threads s)[t := Outside])
      in (woken, \<lparr>rwlock = l, threads = pcs\<rparr>))"

definition rw_writeUnlock :: "nat \<Rightarrow> nat \<Rightarrow> rw_sys \<Rightarrow> nat list \<times> rw_sys" where
  "rw_writeUnlock t ch s =
     (let (n, l) = writeUnlock (rwlock s);
          (woken, pcs) = deliver ch n ((threads s)[t := Outside])
      in (woken, \<lparr>rwlock = l, threads = pcs\<rparr>))"

datatype rw_event =
  ReadLock nat | ReadUnlock nat nat | WriteLock nat | WriteUnlock nat nat
  | Resume nat | SpuriousWake nat

definition pc_of :: "rw_sys \<Rightarrow> nat \<Rightarrow> rw_pc option" where
  "pc_of s t = (if t < length (threads s) then Some (threads s ! t) else None)"

fun rw_step :: "rw_sys \<Rightarrow> rw_event \<Rightarrow> rw_sys" where
  "rw_step s (ReadLock t) =
     (if pc_of s t = Some Outside then rw_readLock_attempt t s else s)"
| "rw_step s (ReadUnlock t ch) =
     (if pc_of s t = Some Reading then snd (rw_readUnlock t ch s) else s)"
| "rw_step s (WriteLock t) =
     (if pc_of s t = Some Outside
      then rw_writeLock_attempt t (s\<lparr>rwlock := writeLock_enter (rwlock s)\<rparr>) else s)"
| "rw_step s (WriteUnlock t ch) =
     (if pc_of s t = Some Writing then snd (rw_writeUnlock t ch s) else s)"
| "rw_step s (Resume t) =
     (if pc_of s t = Some ReadWoken then rw_readLock_attempt t s
      else if pc_of s t = Some WriteWoken then rw_writeLock_attempt t s
      else s)"
| "rw_step s (SpuriousWake t) =
     (if pc_of s t = Some ReadWait then set_thread t ReadWoken s
      else if pc_of s t = Some WriteWait then set_thread t WriteWoken s
      else s)"

definition rw_run :: "rw_event list \<Rightarrow> rw_sys \<Rightarrow> rw_sys" where
  "rw_run evs s = foldl rw_step s evs"

text \<open>
  Three writers: thread 0 takes the lock, thread 1 blocks behind it, thread 0 unlocks
  and so unblocks thread 1, and thread 2 takes the mutex and the lock before thread 1
  has taken the mutex again.
\<close>

definition overtaken_writer :: rw_sys where
  "overtaken_writer =
     rw_run [WriteLock 0, WriteLock 1, WriteUnlock 0 0, WriteLock 2] (rw_init 3)"

text \<open>
  The number of threads at one place of the code, and the bookkeeping the counters are
  meant to keep: \<open>readers\<close> counts the threads that hold a read lock, \<open>writers\<close> those
  that hold the write lock, \<open>waitingWriters\<close> those inside the loop of \<^verbatim>\<open>writeLock\<close>.
\<close>

definition holders :: "rw_pc \<Rightarrow> rw_pc list \<Rightarrow> int" where
  "holders a pcs = int (count_list pcs a)"

definition rw_profile :: "rw_pc list \<Rightarrow> int \<times> int \<times> int" where
  "rw_profile pcs =
     (holders Reading pcs, holders Writing pcs, holders WriteWait pcs + holders WriteWoken pcs)"

definition rw_accounted :: "rw_sys \<Rightarrow> bool" where
  "rw_accounted s \<longleftrightarrow>
     readers (rwlock s) = holders Reading (threads s) \<and>
     writers (rwlock s) = holders Writing (threads s) \<and>
     waitingWriters (rwlock s) = holders WriteWait (threads s) + holders WriteWoken (threads s)"

text \<open>At most one writer, and no reader next to a writer.\<close>

definition rw_exclusive :: "rw_sys \<Rightarrow> bool" where
  "rw_exclusive s \<longleftrightarrow>
     (writers (rwlock s) = 0 \<or> writers (rwlock s) = 1) \<and>
     (0 < writers (rwlock s) \<longrightarrow> readers (rwlock s) = 0)"

definition rw_inv :: "rw_sys \<Rightarrow> bool" where
  "rw_inv s \<longleftrightarrow> rw_accounted s \<and> rw_exclusive s"

section \<open>Barrier (Synchronization.cpp)\<close>


















section \<open>Properties of the semaphore\<close>

subsection \<open>Signed 64-bit arithmetic without overflow\<close>

lemma sint_i64: "- (2^63) \<le> k \<Longrightarrow> k < 2^63 \<Longrightarrow> sint (word_of_int k :: i64) = k"
  by (simp add: sint_sbintrunc' signed_take_bit_int_eq_self)

lemma sint_add_i64:
  "- (2^63) \<le> sint a + sint b \<Longrightarrow> sint a + sint b < 2^63 \<Longrightarrow> sint (a + b :: i64) = sint a + sint b"
  by (simp add: sint_word_ariths signed_take_bit_int_eq_self)

lemma sint_mult_i64:
  "- (2^63) \<le> sint a * sint b \<Longrightarrow> sint a * sint b < 2^63 \<Longrightarrow> sint (a * b :: i64) = sint a * sint b"
  by (simp add: sint_word_ariths signed_take_bit_int_eq_self)

lemma sint_smod64_nonneg:
  assumes "0 \<le> sint a" "0 < sint b"
  shows "sint (smod64 a b) = sint a mod sint b"
proof -
  have m: "sint a smod sint b = sint a mod sint b"
    using assms by (simp add: smod_mod_positive)
  have "0 \<le> sint a mod sint b" "sint a mod sint b < sint b"
    using assms by simp_all
  moreover have "sint b < 2^63" using sint_lt [of b] by simp
  ultimately show ?thesis
    unfolding smod64_def m by (intro sint_i64) linarith+
qed

lemma sint_sdiv64_nonneg:
  assumes "0 \<le> sint a" "0 < sint b"
  shows "sint (sdiv64 a b) = sint a div sint b"
proof -
  have m: "sint a sdiv sint b = sint a div sint b"
    using assms by (simp add: signed_divide_int_def sgn_if)
  have "0 \<le> sint a div sint b" 
    using assms by (simp add: pos_imp_zdiv_nonneg_iff)
  moreover have "sint a div sint b \<le> sint a"
    using assms zdiv_mono2 [of "sint a" 1 "sint b"] by simp
  moreover have "sint a < 2^63" using sint_lt [of a] by simp
  ultimately show ?thesis
    unfolding sdiv64_def m by (intro sint_i64) linarith+
qed


lemma deadline_exact:
  assumes c: "clock_reading now" and t: "0 \<le> sint timeout"
  shows "timespec_ns (timedWait_deadline now timeout) = timespec_ns now + sint timeout * 1000000"
    and "0 \<le> sint (tv_nsec (timedWait_deadline now timeout))"
    and "sint (tv_nsec (timedWait_deadline now timeout)) < 1000000000"
proof -
  define T where "T = sint timeout"
  define S where "S = sint (tv_sec now)"
  define N where "N = sint (tv_nsec now)"
  have Tb: "0 \<le> T" "T < 2^63" using t sint_lt [of timeout] by (simp_all add: T_def)
  have Sb: "0 \<le> S" "S < 2^62" and Nb: "0 \<le> N" "N < 1000000000"
    using c by (simp_all add: clock_reading_def S_def N_def)
  have k: "sint (1000 :: i64) = 1000" "sint (1000000 :: i64) = 1000000"
     "sint (1000000000 :: i64) = 1000000000" by simp_all
  have ms: "sint (smod64 timeout 1000) = T mod 1000"
    using t by (simp add: sint_smod64_nonneg T_def)
  have msb: "0 \<le> T mod 1000" "T mod 1000 < 1000" by simp_all
  have frac: "sint (smod64 timeout 1000 * 1000000) = T mod 1000 * 1000000"
    using msb by (subst sint_mult_i64) (simp_all add: ms)
  define nsec where "nsec = tv_nsec now + smod64 timeout 1000 * 1000000"
  have nsec: "sint nsec = N + T mod 1000 * 1000000"
    unfolding nsec_def using msb Nb by (subst sint_add_i64) (simp_all add: frac N_def)
  have nsecb: "0 \<le> sint nsec" "sint nsec < 2000000000"
    using msb Nb by (simp_all add: nsec)
  have carry: "sint (sdiv64 nsec 1000000000) = sint nsec div 1000000000"
    using nsecb by (simp add: sint_sdiv64_nonneg)
  have carryb: "0 \<le> sint nsec div 1000000000" "sint nsec div 1000000000 \<le> 1"
    using nsecb by simp_all
  have secs: "sint (sdiv64 timeout 1000) = T div 1000"
    using t by (simp add: sint_sdiv64_nonneg T_def)
  have secsb: "0 \<le> T div 1000" "T div 1000 < 2^62"
    using Tb by simp_all
  have inc: "sint (sdiv64 timeout 1000 + sdiv64 nsec 1000000000) = T div 1000 + sint nsec div 1000000000"
    using secsb carryb by (subst sint_add_i64) (simp_all add: secs carry)
  have sec: "sint (tv_sec now + (sdiv64 timeout 1000 + sdiv64 nsec 1000000000))
       = S + (T div 1000 + sint nsec div 1000000000)"
    using secsb carryb Sb by (subst sint_add_i64) (simp_all add: inc S_def)
  have rem: "sint (smod64 nsec 1000000000) = sint nsec mod 1000000000"
    using nsecb by (simp add: sint_smod64_nonneg)
  have d: "timedWait_deadline now timeout =
      \<lparr>tv_sec = tv_sec now + (sdiv64 timeout 1000 + sdiv64 nsec 1000000000),
       tv_nsec = smod64 nsec 1000000000\<rparr>"
    by (simp add: timedWait_deadline_def nsec_def Let_def)
  show "0 \<le> sint (tv_nsec (timedWait_deadline now timeout))"
    by (simp add: d rem)
  show "sint (tv_nsec (timedWait_deadline now timeout)) < 1000000000"
    by (simp add: d rem)
  have "T = T div 1000 * 1000 + T mod 1000" by simp
  then have Tsplit: "T * 1000000 = T div 1000 * 1000000000 + T mod 1000 * 1000000" by linarith
  have nsplit: "sint nsec = sint nsec div 1000000000 * 1000000000 + sint nsec mod 1000000000" by simp
  show "timespec_ns (timedWait_deadline now timeout) = timespec_ns now + sint timeout * 1000000"
    unfolding timespec_ns_def d timespec.simps sec rem
    using Tsplit nsplit nsec by (simp add: algebra_simps S_def N_def T_def)
qed

text \<open>
  C8.  On a semaphore whose \<^verbatim>\<open>sem_init\<close> failed (\<open>initialized\<close> is false), \<open>wait\<close>,
  \<open>tryWait\<close>, \<open>timedWait\<close> and \<open>post\<close> return \<^verbatim>\<open>false\<close> and leave the semaphore as
  it is (\<open>timedWait\<close> without calling \<^verbatim>\<open>sem_timedwait\<close>), and \<open>getValue\<close> returns
  \<open>-1\<close>.  The witness is the semaphore built with an initial value above
  \<^verbatim>\<open>SEM_VALUE_MAX\<close>.
\<close>

theorem uninitialized_semaphore_rejects:
  "\<not> initialized s \<Longrightarrow>
     wait s = (Returned False, s) \<and> tryWait s = (False, s) \<and>
     timedWait s now timeout = ((False, None), s) \<and> post s = (False, s) \<and> getValue s = - 1"
  by (simp add: wait_def tryWait_def timedWait_def post_def getValue_def)

theorem uninitialized_semaphore_rejects_witness:
  "\<not> initialized (Semaphore_ctor 4294967295 ''jobs'') \<and>
   wait (Semaphore_ctor 4294967295 ''jobs'') = (Returned False, Semaphore_ctor 4294967295 ''jobs'') \<and>
   tryWait (Semaphore_ctor 4294967295 ''jobs'') = (False, Semaphore_ctor 4294967295 ''jobs'') \<and>
   timedWait (Semaphore_ctor 4294967295 ''jobs'') \<lparr>tv_sec = 1700000000, tv_nsec = 0\<rparr> 250
     = ((False, None), Semaphore_ctor 4294967295 ''jobs'') \<and>
   post (Semaphore_ctor 4294967295 ''jobs'') = (False, Semaphore_ctor 4294967295 ''jobs'') \<and>
   getValue (Semaphore_ctor 4294967295 ''jobs'') = - 1"
proof -
  have h: "\<not> initialized (Semaphore_ctor 4294967295 ''jobs'')"
    by (simp add: Semaphore_ctor_def sem_init_def SEM_VALUE_MAX_def)
  show ?thesis
    using h uninitialized_semaphore_rejects [OF h, of "\<lparr>tv_sec = 1700000000, tv_nsec = 0\<rparr>" 250]
    by simp
qed

text \<open>
  C10.  For an initialized semaphore, a non-negative timeout in milliseconds and a
  reading \<open>now\<close> of \<^verbatim>\<open>CLOCK_REALTIME\<close>, \<open>timedWait\<close> calls \<^verbatim>\<open>sem_timedwait\<close> with a
  deadline \<open>d\<close> that is the reading plus the timeout, exactly, and whose \<open>tv_nsec\<close> lies
  in \<open>[0, 1000000000)\<close>; so the deadline is never refused, and the call takes a permit
  if there is one and otherwise gives up at \<open>d\<close>.
\<close>

theorem timedWait_deadline_exact:
  assumes "initialized s" and "clock_reading now" and "0 \<le> sint timeout"
  shows "\<exists>d. timedWait s now timeout =
              (if 0 < sem s then ((True, Some (d, Sem_taken)), s\<lparr>sem := sem s - 1\<rparr>)
               else ((False, Some (d, Sem_ETIMEDOUT d)), s)) \<and>
             timespec_ns d = timespec_ns now + sint timeout * 1000000 \<and>
             0 \<le> sint (tv_nsec d) \<and> sint (tv_nsec d) < 1000000000"
proof (intro exI conjI)
  let ?d = "timedWait_deadline now timeout"
  have lo: "0 \<le> sint (tv_nsec ?d)" and hi: "sint (tv_nsec ?d) < 1000000000"
    using assms(2,3) by (rule deadline_exact)+
  show "timedWait s now timeout =
          (if 0 < sem s then ((True, Some (?d, Sem_taken)), s\<lparr>sem := sem s - 1\<rparr>)
           else ((False, Some (?d, Sem_ETIMEDOUT ?d)), s))"
    using assms(1) lo hi by (simp add: timedWait_def sem_timedwait_def Let_def)
  show "timespec_ns ?d = timespec_ns now + sint timeout * 1000000"
    using assms(2,3) by (rule deadline_exact)
  show "0 \<le> sint (tv_nsec ?d)" by (fact lo)
  show "sint (tv_nsec ?d) < 1000000000" by (fact hi)
qed

theorem timedWait_deadline_exact_witness:
  "initialized (Semaphore_ctor 0 ''slots'') \<and>
   clock_reading \<lparr>tv_sec = 1700000000, tv_nsec = 999999999\<rparr> \<and>
   timedWait (Semaphore_ctor 0 ''slots'') \<lparr>tv_sec = 1700000000, tv_nsec = 999999999\<rparr> 2999
     = ((False, Some (\<lparr>tv_sec = 1700000003, tv_nsec = 998999999\<rparr>,
                      Sem_ETIMEDOUT \<lparr>tv_sec = 1700000003, tv_nsec = 998999999\<rparr>)),
        Semaphore_ctor 0 ''slots'') \<and>
   timespec_ns \<lparr>tv_sec = 1700000003, tv_nsec = 998999999\<rparr>
     = timespec_ns \<lparr>tv_sec = 1700000000, tv_nsec = 999999999\<rparr> + 2999 * 1000000"
proof -
  have i: "initialized (Semaphore_ctor 0 ''slots'')"
    by (simp add: Semaphore_ctor_def sem_init_def SEM_VALUE_MAX_def)
  have c: "clock_reading \<lparr>tv_sec = 1700000000, tv_nsec = 999999999\<rparr>"
    by (simp add: clock_reading_def)
  have t: "0 \<le> sint (2999 :: i64)" by simp
  have z: "sem (Semaphore_ctor 0 ''slots'') = 0"
    by (simp add: Semaphore_ctor_def sem_init_def SEM_VALUE_MAX_def)
  have d: "timedWait_deadline \<lparr>tv_sec = 1700000000, tv_nsec = 999999999\<rparr> 2999
     = \<lparr>tv_sec = 1700000003, tv_nsec = 998999999\<rparr>"
    by (simp add: timedWait_deadline_def sdiv64_def smod64_def)
  from timedWait_deadline_exact [OF i c t] obtain dl where
    e: "timedWait (Semaphore_ctor 0 ''slots'') \<lparr>tv_sec = 1700000000, tv_nsec = 999999999\<rparr> 2999
          = ((False, Some (dl, Sem_ETIMEDOUT dl)), Semaphore_ctor 0 ''slots'')"
    and n: "timespec_ns dl
          = timespec_ns \<lparr>tv_sec = 1700000000, tv_nsec = 999999999\<rparr> + sint (2999 :: i64) * 1000000"
    using z by auto
  have "dl = \<lparr>tv_sec = 1700000003, tv_nsec = 998999999\<rparr>"
    using e i d by (simp add: timedWait_def sem_timedwait_def Let_def split: if_splits prod.splits)
  with e n i c show ?thesis by simp
qed

section \<open>Properties of the thread pool\<close>

lemma length_set_pc [simp]:
  "length (workers (set_pc i pc p)) = length (workers p)"
  "length (workerStates (set_pc i pc p)) = length (workerStates p)"
  by (simp_all add: set_pc_def)

lemma length_set_workerState [simp]:
  "length (workers (set_workerState i st p)) = length (workers p)"
  "length (workerStates (set_workerState i st p)) = length (workerStates p)"
  by (simp_all add: set_workerState_def)

lemma length_after_wait [simp]:
  "length (workers (after_wait i p)) = length (workers p)"
  "length (workerStates (after_wait i p)) = length (workerStates p)"
  by (simp_all add: after_wait_def split: list.splits)

lemma length_workerThread [simp]:
  "length (workers (workerThread i p)) = length (workers p)"
  "length (workerStates (workerThread i p)) = length (workerStates p)"
  by (simp_all add: workerThread_def Let_def split: worker_pc.splits option.splits)

lemma length_notify_one [simp]: "length (snd (notify_one ch blk wake pcs)) = length pcs"
  by (simp add: notify_one_def Let_def split: list.splits)

lemma notify_one_length: "notify_one ch blk wake pcs = (ws, pcs') \<Longrightarrow> length pcs' = length pcs"
  using length_notify_one [of ch blk wake pcs] by simp

lemma length_notify_all [simp]: "length (snd (notify_all blk wake pcs)) = length pcs"
  by (simp add: notify_all_def)

lemma length_enqueue [simp]:
  "length (workers (snd (enqueue t ch p))) = length (workers p)"
  "length (workerStates (snd (enqueue t ch p))) = length (workerStates p)"
  by (auto simp: enqueue_def Let_def split: prod.splits dest: notify_one_length)

lemma length_shutdown_enter [simp]:
  "length (workers (snd (shutdown_enter p))) = length (workers p)"
  "length (workerStates (snd (shutdown_enter p))) = length (workerStates p)"
  by (simp_all add: shutdown_enter_def Let_def)

lemma length_pool_step [simp]:
  "length (workers (pool_step p e)) = length (workers p)"
  "length (workerStates (pool_step p e)) = length (workerStates p)"
  by (cases e; simp)+

lemma length_pool_run:
  "length (workers (pool_run evs p)) = length (workers p) \<and>
   length (workerStates (pool_run evs p)) = length (workerStates p)"
  unfolding pool_run_def by (induction evs arbitrary: p) simp_all

lemma pool_size:
  "length (workerStates (pool_run evs (ThreadPool_ctor N))) = N"
  by (simp add: length_pool_run ThreadPool_ctor_def)

text \<open>
  C9.  In a pool of size \<open>N\<close>, \<open>getThreadState\<close> returns \<open>TERMINATED\<close> for every index
  \<open>id \<ge> N\<close> and the stored state of worker \<open>id\<close> for \<open>id < N\<close>; the pool is unchanged
  either way.
\<close>

theorem getThreadState_guarded:
  "p = pool_run evs (ThreadPool_ctor N) \<Longrightarrow>
   (N \<le> unat wid \<longrightarrow> getThreadState wid p = (TERMINATED, p)) \<and>
   (unat wid < N \<longrightarrow> getThreadState wid p = (workerStates p ! unat wid, p))"
  by (simp add: getThreadState_def pool_size)

theorem getThreadState_guarded_witness:
  "getThreadState 0 busy_pool = (RUNNING, busy_pool) \<and>
   getThreadState 1 busy_pool = (TERMINATED, busy_pool)"
proof -
  have p: "busy_pool = pool_run [Enqueue 1 0, Worker 0, Worker 0] (ThreadPool_ctor 1)"
    by (simp add: busy_pool_def)
  have st: "workerStates busy_pool ! unat (0 :: u64) = RUNNING"
    by code_simp
  from getThreadState_guarded [OF p, of 0] getThreadState_guarded [OF p, of 1] st
  show ?thesis by simp
qed


section \<open>Properties of condition variables\<close>

lemma blocked_threadsD:
  "i \<in> set (blocked_threads blk pcs) \<Longrightarrow> i < length pcs \<and> blk (pcs ! i)"
  by (simp add: blocked_threads_def)

lemma notify_one_cases:
  assumes "notify_one ch blk wake pcs = (woken, pcs')"
  shows "(blocked_threads blk pcs = [] \<and> woken = [] \<and> pcs' = pcs) \<or>
         (\<exists>i. i \<in> set (blocked_threads blk pcs) \<and> woken = [i] \<and> pcs' = pcs[i := wake (pcs ! i)])"
proof (cases "blocked_threads blk pcs")
  case Nil
  with assms show ?thesis by (simp add: notify_one_def)
next
  case (Cons w ws)
  have "(w # ws) ! (ch mod length (w # ws)) \<in> set (w # ws)"
    by (rule nth_mem) simp
  with assms Cons show ?thesis
    by (auto simp: notify_one_def Let_def)
qed

lemma blocked_threads_update_other:
  "t < length pcs \<Longrightarrow> \<not> blk (pcs ! t) \<Longrightarrow> \<not> blk v \<Longrightarrow>
   blocked_threads blk (pcs[t := v]) = blocked_threads blk pcs"
  unfolding blocked_threads_def
  by (rule filter_cong) (auto simp: nth_list_update)

section \<open>Properties of the thread pool: enqueue and shutdown\<close>

text \<open>
  C5, as stated, fails where it says that exactly one idle worker is woken: on a pool
  that is not stopped and whose only worker is inside a task, \<open>enqueue\<close> accepts the
  task and its \<^verbatim>\<open>notify_one\<close> unblocks nobody.
\<close>

theorem enqueue_wakes_one_counterexample:
  "\<not> stop busy_pool \<and> fst (enqueue 2 0 busy_pool) = Inr [] \<and>
   tasks (snd (enqueue 2 0 busy_pool)) = [2]"
  by code_simp

text \<open>
  C5, amended.  After \<open>shutdown\<close> has begun, \<open>enqueue\<close> throws and leaves the pool,
  its queue included, as it is.  Otherwise it appends the task at the back of the queue
  and unblocks at most one worker: one of the workers blocked in \<^verbatim>\<open>condition.wait\<close> if
  there is any, and nobody if there is none.
\<close>

theorem enqueue_contract:
  "(stop p \<longrightarrow>
      enqueue task ch p = (Inl (Runtime_error ''Cannot enqueue on stopped ThreadPool''), p)) \<and>
   (\<not> stop p \<longrightarrow>
      (\<exists>woken ws. enqueue task ch p = (Inr woken, p\<lparr>tasks := tasks p @ [task], workers := ws\<rparr>) \<and>
         (if blocked_threads in_wait (workers p) = [] then woken = [] \<and> ws = workers p
          else \<exists>w. woken = [w] \<and> w < length (workers p) \<and> workers p ! w = InWait \<and>
                   ws = (workers p)[w := Notified])))"
proof (cases "stop p")
  case True
  then show ?thesis by (simp add: enqueue_def)
next
  case False
  obtain woken ws where n: "notify_one ch in_wait (\<lambda>_. Notified) (workers p) = (woken, ws)"
    by fastforce
  have e: "enqueue task ch p = (Inr woken, p\<lparr>tasks := tasks p @ [task], workers := ws\<rparr>)"
    using False n by (simp add: enqueue_def Let_def)
  from notify_one_cases [OF n]
  have "if blocked_threads in_wait (workers p) = [] then woken = [] \<and> ws = workers p
        else \<exists>w. woken = [w] \<and> w < length (workers p) \<and> workers p ! w = InWait \<and>
                 ws = (workers p)[w := Notified]"
  proof (elim disjE exE conjE)
    fix i assume i: "i \<in> set (blocked_threads in_wait (workers p))"
      and w: "woken = [i]" and p: "ws = (workers p)[i := Notified]"
    from blocked_threadsD [OF i] have "i < length (workers p)" "workers p ! i = InWait"
      by (simp_all add: in_wait_def)
    moreover from i have "blocked_threads in_wait (workers p) \<noteq> []" by auto
    ultimately show ?thesis using w p by simp
  qed simp
  with False e show ?thesis by blast
qed

theorem enqueue_contract_witness:
  "stop (pool_run [Worker 0, Worker 1, Shutdown] (ThreadPool_ctor 2 :: nat ThreadPool)) \<and>
   enqueue 9 0 (pool_run [Worker 0, Worker 1, Shutdown] (ThreadPool_ctor 2 :: nat ThreadPool))
     = (Inl (Runtime_error ''Cannot enqueue on stopped ThreadPool''),
        pool_run [Worker 0, Worker 1, Shutdown] (ThreadPool_ctor 2)) \<and>
   \<not> stop (pool_run [Worker 0, Worker 1, Enqueue 8 0] (ThreadPool_ctor 2 :: nat ThreadPool)) \<and>
   fst (enqueue 9 1 (pool_run [Worker 0, Worker 1, Enqueue 8 0] (ThreadPool_ctor 2 :: nat ThreadPool)))
     = Inr [1] \<and>
   tasks (snd (enqueue 9 1 (pool_run [Worker 0, Worker 1, Enqueue 8 0] (ThreadPool_ctor 2 :: nat ThreadPool))))
     = [8, 9]"
proof -
  have a: "stop (pool_run [Worker 0, Worker 1, Shutdown] (ThreadPool_ctor 2 :: nat ThreadPool))"
    by code_simp
  have b: "\<not> stop (pool_run [Worker 0, Worker 1, Enqueue 8 0] (ThreadPool_ctor 2 :: nat ThreadPool))"
    by code_simp
  have c: "fst (enqueue 9 1 (pool_run [Worker 0, Worker 1, Enqueue 8 0] (ThreadPool_ctor 2 :: nat ThreadPool)))
     = Inr [1]"
    by code_simp
  have d: "tasks (snd (enqueue 9 1 (pool_run [Worker 0, Worker 1, Enqueue 8 0] (ThreadPool_ctor 2 :: nat ThreadPool))))
     = [8, 9]"
    by code_simp
  from enqueue_contract [of "pool_run [Worker 0, Worker 1, Shutdown] (ThreadPool_ctor 2 :: nat ThreadPool)" 9 0]
    enqueue_contract [of "pool_run [Worker 0, Worker 1, Enqueue 8 0] (ThreadPool_ctor 2 :: nat ThreadPool)" 9 1]
    a b c d
  show ?thesis by simp
qed

subsection \<open>The stop flag is never cleared\<close>

lemma stop_set_pc [simp]: "stop (set_pc i pc p) = stop p"
  by (simp add: set_pc_def)

lemma stop_set_workerState [simp]: "stop (set_workerState i st p) = stop p"
  by (simp add: set_workerState_def)

lemma stop_after_wait [simp]: "stop (after_wait i p) = stop p"
  by (simp add: after_wait_def split: list.splits)

lemma stop_workerThread [simp]: "stop (workerThread i p) = stop p"
  by (simp add: workerThread_def Let_def split: worker_pc.splits option.splits)

lemma stop_enqueue [simp]: "stop (snd (enqueue t ch p)) = stop p"
  by (simp add: enqueue_def Let_def split: prod.splits)

lemma stop_shutdown_enter [simp]: "stop (snd (shutdown_enter p))"
  by (simp add: shutdown_enter_def Let_def)

lemma stop_pool_step: "stop p \<Longrightarrow> stop (pool_step p e)"
  by (cases e) simp_all

lemma stop_pool_run: "stop p \<Longrightarrow> stop (pool_run evs p)"
  unfolding pool_run_def
  by (induction evs rule: rev_induct) (simp_all add: stop_pool_step)

text \<open>
  C7.  Once \<open>shutdown\<close> has been called, whatever happens to the pool afterwards (the
  workers running on until the joins of the first call succeed, further calls of
  \<open>enqueue\<close>), every further call of \<open>shutdown\<close> returns at its test of \<open>stop\<close>: it
  notifies nobody, joins nobody and leaves the pool as it is.
\<close>

theorem shutdown_idempotent:
  assumes "shutdown_enter p = (path, p1)" and "p2 = pool_run evs p1"
  shows "shutdown_enter p2 = (Already_stopped, p2)"
proof -
  have "stop p1" using assms(1) stop_shutdown_enter [of p] by simp
  then have "stop p2" unfolding assms(2) by (rule stop_pool_run)
  then show ?thesis by (simp add: shutdown_enter_def)
qed

theorem shutdown_idempotent_witness:
  "shutdown_enter busy_pool = (Joining, busy_pool\<lparr>stop := True\<rparr>) \<and>
   shutdown_join (pool_run [Worker 0, Worker 0] (busy_pool\<lparr>stop := True\<rparr>)) = Returned () \<and>
   shutdown_enter (pool_run [Worker 0, Worker 0] (busy_pool\<lparr>stop := True\<rparr>))
     = (Already_stopped, pool_run [Worker 0, Worker 0] (busy_pool\<lparr>stop := True\<rparr>))"
proof -
  have a: "shutdown_enter busy_pool = (Joining, busy_pool\<lparr>stop := True\<rparr>)"
    by code_simp
  have b: "shutdown_join (pool_run [Worker 0, Worker 0] (busy_pool\<lparr>stop := True\<rparr>)) = Returned ()"
    by code_simp
  from shutdown_idempotent [OF a refl, of "[Worker 0, Worker 0]"] a b show ?thesis by simp
qed

text \<open>
  C1 says that a task still in the queue when \<open>shutdown\<close> is called is never executed.
  The worker leaves its loop only on \<^verbatim>\<open>stop.load() && tasks.empty()\<close>: with the tasks 2
  and 3 in the queue at the call of \<open>shutdown\<close>, the worker runs both before it
  terminates and the joins of \<open>shutdown\<close> succeed.
\<close>

theorem shutdown_runs_queued_tasks:
  "stop shutdown_with_queue \<and> tasks shutdown_with_queue = [2, 3] \<and>
   executed shutdown_with_queue = [1] \<and>
   executed (pool_run [Worker 0, Worker 0, Worker 0, Worker 0, Worker 0, Worker 0, Worker 0, Worker 0]
       shutdown_with_queue) = [1, 2, 3] \<and>
   shutdown_join (pool_run [Worker 0, Worker 0, Worker 0, Worker 0, Worker 0, Worker 0, Worker 0, Worker 0]
       shutdown_with_queue) = Returned ()"
  by code_simp

section \<open>Properties of the mutex\<close>

lemma mx_consistent_ctor: "mx_consistent (SafeMutex_ctor nm)"
  by (simp add: mx_consistent_def SafeMutex_ctor_def)

lemma mx_consistent_step: "mx_consistent s \<Longrightarrow> mx_consistent (mx_step s e)"
  by (cases e)
     (auto simp: mx_consistent_def lock_def tryLock_def unlock_def try_lock_def try_lock_for_def
           split: option.splits)

lemma mx_consistent_run: "mx_consistent s \<Longrightarrow> mx_consistent (mx_run evs s)"
  unfolding mx_run_def
  by (induction evs rule: rev_induct) (simp_all add: mx_consistent_step)

text \<open>
  C3.  When the thread that holds the mutex calls \<open>lock\<close> or \<open>tryLock\<close>, the call
  returns \<^verbatim>\<open>false\<close> at once (\<open>lock\<close> has spent no time blocked, whatever its timeout)
  and the mutex, its owner and its count are unchanged.
\<close>

theorem recursive_acquisition_rejected:
  assumes "s = mx_run evs (SafeMutex_ctor nm)" and "mtx s = Some t"
  shows "lock t timeout s = ((False, 0), s) \<and> tryLock t s = (False, s)"
proof -
  have "mx_consistent s"
    using assms(1) mx_consistent_ctor mx_consistent_run by simp
  then have "owner s = Some t"
    using assms(2) by (simp add: mx_consistent_def)
  then show ?thesis
    using assms(2) by (simp add: lock_def tryLock_def try_lock_def)
qed

theorem recursive_acquisition_rejected_witness:
  "mtx (mx_run [Lock 7 5000] (SafeMutex_ctor ''guard'')) = Some 7 \<and>
   lock 7 5000 (mx_run [Lock 7 5000] (SafeMutex_ctor ''guard''))
     = ((False, 0), mx_run [Lock 7 5000] (SafeMutex_ctor ''guard'')) \<and>
   tryLock 7 (mx_run [Lock 7 5000] (SafeMutex_ctor ''guard''))
     = (False, mx_run [Lock 7 5000] (SafeMutex_ctor ''guard''))"
proof -
  have h: "mtx (mx_run [Lock 7 5000] (SafeMutex_ctor ''guard'')) = Some 7"
    by (simp add: mx_run_def lock_def try_lock_for_def SafeMutex_ctor_def)
  from recursive_acquisition_rejected [OF refl h, of 5000] h show ?thesis by simp
qed

section \<open>Properties of the reader-writer lock\<close>

subsection \<open>Counting threads\<close>

lemma holders_nonneg [simp]: "0 \<le> holders a pcs"
  by (simp add: holders_def)

lemma holders_replicate: "holders a (replicate n b) = (if a = b then int n else 0)"
  by (induction n) (auto simp: holders_def)

lemma holders_update:
  "i < length pcs \<Longrightarrow>
   holders a (pcs[i := v]) = holders a pcs - of_bool (pcs ! i = a) + of_bool (v = a)"
proof (induction pcs arbitrary: i)
  case Nil
  then show ?case by simp
next
  case (Cons x xs)
  then show ?case by (cases i) (auto simp: holders_def)
qed

lemma holders_map_other:
  "(\<And>pc. f pc = a \<longleftrightarrow> pc = a) \<Longrightarrow> holders a (map f pcs) = holders a pcs"
  by (induction pcs) (simp_all add: holders_def)

lemma holders_map_pair:
  "(\<And>pc. f pc = a \<or> f pc = b \<longleftrightarrow> pc = a \<or> pc = b) \<Longrightarrow> a \<noteq> b \<Longrightarrow>
   holders a (map f pcs) + holders b (map f pcs) = holders a pcs + holders b pcs"
proof (induction pcs)
  case Nil
  then show ?case by simp
next
  case (Cons x xs)
  then have "holders a (map f xs) + holders b (map f xs) = holders a xs + holders b xs" by simp
  moreover have "(of_bool (f x = a) :: int) + of_bool (f x = b) = of_bool (x = a) + of_bool (x = b)"
    using Cons.prems(1) [of x] Cons.prems(2) by (auto simp: of_bool_def)
  ultimately show ?case by (simp add: holders_def of_bool_def split: if_splits)
qed

lemma holders_pos: "i < length pcs \<Longrightarrow> pcs ! i = a \<Longrightarrow> 0 < holders a pcs"
proof -
  assume "i < length pcs" "pcs ! i = a"
  then have "a \<in> set pcs" by auto
  then have "count_list pcs a \<noteq> 0" by (simp add: count_list_0_iff)
  then show ?thesis by (simp add: holders_def)
qed

lemma deliver_profile:
  assumes "deliver ch n pcs = (woken, pcs')"
  shows "rw_profile pcs' = rw_profile pcs \<and> length pcs' = length pcs"
proof (cases n)
  case No_notify
  with assms show ?thesis by simp
next
  case (Notify_one c)
  with assms have "notify_one ch (\<lambda>pc. pc = cv_blocked c) (\<lambda>_. cv_woken c) pcs = (woken, pcs')"
    by simp
  from notify_one_cases [OF this] show ?thesis
  proof (elim disjE exE conjE)
    fix i assume i: "i \<in> set (blocked_threads (\<lambda>pc. pc = cv_blocked c) pcs)"
      and p: "pcs' = pcs[i := cv_woken c]"
    from blocked_threadsD [OF i] have "i < length pcs" "pcs ! i = cv_blocked c" by simp_all
    then show ?thesis
      unfolding p by (cases c) (simp_all add: rw_profile_def holders_update cv_blocked_def cv_woken_def)
  qed simp
next
  case (Notify_all c)
  with assms have p: "pcs' = map (\<lambda>pc. if pc = cv_blocked c then cv_woken c else pc) pcs"
    by (auto simp: notify_all_def)
  show ?thesis
  proof (cases c)
    case ReadCV
    then show ?thesis 
      unfolding p by (simp add: rw_profile_def cv_blocked_def cv_woken_def holders_map_other holders_map_pair)
  next
    case WriteCV
    then show ?thesis
      unfolding p by (simp add: rw_profile_def cv_blocked_def cv_woken_def holders_map_other holders_map_pair)
  qed
qed

subsection \<open>The counters account for the threads, in every reachable state\<close>

lemma pc_ofD: "pc_of s t = Some pc \<Longrightarrow> t < length (threads s) \<and> threads s ! t = pc"
  by (auto simp: pc_of_def split: if_splits)

lemma rw_inv_init: "rw_inv (rw_init n)"
  by (simp add: rw_inv_def rw_accounted_def rw_exclusive_def rw_init_def RWLock_ctor_def
      holders_replicate)

lemma rw_inv_readLock_attempt:
  assumes "rw_inv s" "t < length (threads s)"
    "threads s ! t = Outside \<or> threads s ! t = ReadWoken"
  shows "rw_inv (rw_readLock_attempt t s)"
  using assms
  by (auto simp: rw_inv_def rw_accounted_def rw_exclusive_def rw_readLock_attempt_def
      readLock_attempt_def set_thread_def holders_update)

lemma holders_not_pos [simp]: "\<not> 0 < holders a pcs \<longleftrightarrow> holders a pcs = 0"
  using holders_nonneg [of a pcs] by linarith

lemma rw_inv_writeLock_entry:
  assumes "rw_inv s" "t < length (threads s)" "threads s ! t = Outside"
  shows "rw_inv (rw_writeLock_attempt t (s\<lparr>rwlock := writeLock_enter (rwlock s)\<rparr>))"
  using assms
  by (auto simp: rw_inv_def rw_accounted_def rw_exclusive_def rw_writeLock_attempt_def
      writeLock_attempt_def writeLock_enter_def set_thread_def holders_update)

lemma rw_inv_writeLock_retry:
  assumes "rw_inv s" "t < length (threads s)" "threads s ! t = WriteWoken"
  shows "rw_inv (rw_writeLock_attempt t s)"
  using assms
  by (auto simp: rw_inv_def rw_accounted_def rw_exclusive_def rw_writeLock_attempt_def
      writeLock_attempt_def set_thread_def holders_update)

lemma rw_profile_leave:
  "t < length pcs \<Longrightarrow> pcs ! t = Reading \<Longrightarrow>
   rw_profile (pcs[t := Outside]) =
     (holders Reading pcs - 1, holders Writing pcs, holders WriteWait pcs + holders WriteWoken pcs)"
  "t < length pcs \<Longrightarrow> pcs ! t = Writing \<Longrightarrow>
   rw_profile (pcs[t := Outside]) =
     (holders Reading pcs, holders Writing pcs - 1, holders WriteWait pcs + holders WriteWoken pcs)"
  by (simp_all add: rw_profile_def holders_update)

lemma rw_inv_readUnlock:
  assumes "rw_inv s" "t < length (threads s)" "threads s ! t = Reading"
  shows "rw_inv (snd (rw_readUnlock t ch s))"
proof -
  obtain n l where nl: "readUnlock (rwlock s) = (n, l)" by fastforce
  obtain woken pcs where d: "deliver ch n ((threads s)[t := Outside]) = (woken, pcs)" by fastforce
  have s': "snd (rw_readUnlock t ch s) = \<lparr>rwlock = l, threads = pcs\<rparr>"
    by (simp add: rw_readUnlock_def nl d)
  have l: "l = (rwlock s)\<lparr>readers := readers (rwlock s) - 1\<rparr>"
    using nl by (auto simp: readUnlock_def Let_def)
  have pos: "0 < holders Reading (threads s)"
    using assms(2,3) by (rule holders_pos)
  from deliver_profile [OF d] assms(2,3)
  have prof: "rw_profile pcs = (holders Reading (threads s) - 1, holders Writing (threads s),
      holders WriteWait (threads s) + holders WriteWoken (threads s))"
    by (simp add: rw_profile_leave)
  show ?thesis
    using assms(1) pos prof unfolding s' l
    by (auto simp: rw_inv_def rw_accounted_def rw_exclusive_def rw_profile_def)
qed

lemma rw_inv_writeUnlock:
  assumes "rw_inv s" "t < length (threads s)" "threads s ! t = Writing"
  shows "rw_inv (snd (rw_writeUnlock t ch s))"
proof -
  obtain n l where nl: "writeUnlock (rwlock s) = (n, l)" by fastforce
  obtain woken pcs where d: "deliver ch n ((threads s)[t := Outside]) = (woken, pcs)" by fastforce
  have s': "snd (rw_writeUnlock t ch s) = \<lparr>rwlock = l, threads = pcs\<rparr>"
    by (simp add: rw_writeUnlock_def nl d)
  have l: "l = (rwlock s)\<lparr>writers := writers (rwlock s) - 1\<rparr>"
    using nl by (auto simp: writeUnlock_def Let_def)
  have pos: "0 < holders Writing (threads s)"
    using assms(2,3) by (rule holders_pos)
  from deliver_profile [OF d] assms(2,3)
  have prof: "rw_profile pcs = (holders Reading (threads s), holders Writing (threads s) - 1,
      holders WriteWait (threads s) + holders WriteWoken (threads s))"
    by (simp add: rw_profile_leave)
  show ?thesis
    using assms(1) pos prof unfolding s' l
    by (auto simp: rw_inv_def rw_accounted_def rw_exclusive_def rw_profile_def)
qed

lemma rw_inv_spurious:
  assumes "rw_inv s" "t < length (threads s)"
  shows "threads s ! t = ReadWait \<Longrightarrow> rw_inv (set_thread t ReadWoken s)"
    and "threads s ! t = WriteWait \<Longrightarrow> rw_inv (set_thread t WriteWoken s)"
  using assms
  by (auto simp: rw_inv_def rw_accounted_def rw_exclusive_def set_thread_def holders_update)

lemma rw_inv_step: "rw_inv s \<Longrightarrow> rw_inv (rw_step s e)"
proof (cases e)
  case (ReadLock t)
  then show "rw_inv s \<Longrightarrow> ?thesis"
    by (auto dest!: pc_ofD intro: rw_inv_readLock_attempt)
next
  case (ReadUnlock t ch)
  then show "rw_inv s \<Longrightarrow> ?thesis"
    by (auto dest!: pc_ofD intro: rw_inv_readUnlock)
next
  case (WriteLock t)
  then show "rw_inv s \<Longrightarrow> ?thesis"
    by (auto dest!: pc_ofD intro: rw_inv_writeLock_entry)
next
  case (WriteUnlock t ch)
  then show "rw_inv s \<Longrightarrow> ?thesis"
    by (auto dest!: pc_ofD intro: rw_inv_writeUnlock)
next
  case (Resume t)
  then show "rw_inv s \<Longrightarrow> ?thesis"
    by (auto dest!: pc_ofD intro: rw_inv_readLock_attempt rw_inv_writeLock_retry)
next
  case (SpuriousWake t)
  then show "rw_inv s \<Longrightarrow> ?thesis"
    by (auto dest!: pc_ofD intro: rw_inv_spurious)
qed

lemma rw_inv_run: "rw_inv s \<Longrightarrow> rw_inv (rw_run evs s)"
  unfolding rw_run_def
  by (induction evs rule: rev_induct) (simp_all add: rw_inv_step)

text \<open>
  C2, as stated, fails in its equivalence: a lock that nobody holds, such as a new one,
  has no reader and no writer.
\<close>

theorem rwlock_iff_counterexample:
  "\<not> ((writers (rwlock (rw_run [] (rw_init 2))) = 0 \<or> writers (rwlock (rw_run [] (rw_init 2))) = 1) \<and>
      (0 < writers (rwlock (rw_run [] (rw_init 2))) \<longleftrightarrow> readers (rwlock (rw_run [] (rw_init 2))) = 0))"
  by (simp add: rw_run_def rw_init_def RWLock_ctor_def)

text \<open>
  C2, amended.  In every reachable state the active writer count is 0 or 1, and when it
  is greater than 0 the active reader count is 0.
\<close>

theorem rwlock_exclusion:
  assumes "s = rw_run evs (rw_init n)"
  shows "(writers (rwlock s) = 0 \<or> writers (rwlock s) = 1) \<and>
         (0 < writers (rwlock s) \<longrightarrow> readers (rwlock s) = 0)"
proof -
  have "rw_inv s"
    unfolding assms by (intro rw_inv_run rw_inv_init)
  then show ?thesis
    by (simp add: rw_inv_def rw_exclusive_def)
qed

theorem rwlock_exclusion_witness:
  "0 < writers (rwlock (rw_run [ReadLock 0, WriteLock 1, ReadUnlock 0 0, Resume 1] (rw_init 2))) \<and>
   writers (rwlock (rw_run [ReadLock 0, WriteLock 1, ReadUnlock 0 0, Resume 1] (rw_init 2))) = 1 \<and>
   readers (rwlock (rw_run [ReadLock 0, WriteLock 1, ReadUnlock 0 0, Resume 1] (rw_init 2))) = 0"
proof -
  have w: "0 < writers (rwlock (rw_run [ReadLock 0, WriteLock 1, ReadUnlock 0 0, Resume 1] (rw_init 2)))"
    by code_simp
  from rwlock_exclusion [OF refl, of "[ReadLock 0, WriteLock 1, ReadUnlock 0 0, Resume 1]" 2] w
  show ?thesis by simp
qed

text \<open>
  C6, as stated, fails where it says that exactly one waiting writer is woken whenever
  the waiting-writer count is greater than 0: the one waiting writer may have been
  unblocked already and not have taken the mutex again, and then the \<^verbatim>\<open>notify_one\<close> of
  \<open>writeUnlock\<close> unblocks nobody.
\<close>

theorem writeUnlock_one_counterexample:
  "pc_of overtaken_writer 2 = Some Writing \<and>
   0 < waitingWriters (rwlock overtaken_writer) \<and>
   fst (rw_writeUnlock 2 0 overtaken_writer) = []"
  by code_simp

text \<open>
  C6, amended.  When the waiting-writer count is greater than 0, \<open>writeUnlock\<close> unblocks
  at most one writer (one of the writers blocked in \<^verbatim>\<open>writeCV.wait\<close> if there is any,
  nobody otherwise) and no reader; otherwise it unblocks all the readers blocked in
  \<^verbatim>\<open>readCV.wait\<close>.
\<close>

theorem writeUnlock_wakes:
  assumes "pc_of s t = Some Writing" and "rw_writeUnlock t ch s = (woken, s')"
  shows "(0 < waitingWriters (rwlock s) \<longrightarrow>
            (if blocked_threads (\<lambda>pc. pc = WriteWait) (threads s) = [] then woken = []
             else \<exists>w. woken = [w] \<and> threads s ! w = WriteWait \<and> threads s' ! w = WriteWoken) \<and>
            blocked_threads (\<lambda>pc. pc = ReadWait) (threads s') =
              blocked_threads (\<lambda>pc. pc = ReadWait) (threads s)) \<and>
         (\<not> 0 < waitingWriters (rwlock s) \<longrightarrow>
            woken = blocked_threads (\<lambda>pc. pc = ReadWait) (threads s) \<and>
            (\<forall>r \<in> set woken. threads s' ! r = ReadWoken))"
proof -
  from pc_ofD [OF assms(1)] have t: "t < length (threads s)" "threads s ! t = Writing"
    by simp_all
  let ?pcs = "(threads s)[t := Outside]"
  have bw: "blocked_threads (\<lambda>pc. pc = WriteWait) ?pcs = blocked_threads (\<lambda>pc. pc = WriteWait) (threads s)"
    using t by (simp add: blocked_threads_update_other)
  have br: "blocked_threads (\<lambda>pc. pc = ReadWait) ?pcs = blocked_threads (\<lambda>pc. pc = ReadWait) (threads s)"
    using t by (simp add: blocked_threads_update_other)
  show ?thesis
  proof (cases "0 < waitingWriters (rwlock s)")
    case True
    then have d: "notify_one ch (\<lambda>pc. pc = WriteWait) (\<lambda>_. WriteWoken) ?pcs = (woken, threads s')"
      using assms(2)
      by (auto simp: rw_writeUnlock_def writeUnlock_def Let_def cv_blocked_def cv_woken_def
          split: prod.splits)
    from notify_one_cases [OF d] show ?thesis
    proof (elim disjE exE conjE)
      assume "blocked_threads (\<lambda>pc. pc = WriteWait) ?pcs = []" "woken = []" "threads s' = ?pcs"
      then show ?thesis using True bw br by simp
    next
      fix w assume w: "w \<in> set (blocked_threads (\<lambda>pc. pc = WriteWait) ?pcs)"
        and wk: "woken = [w]" and p: "threads s' = ?pcs[w := WriteWoken]"
      from blocked_threadsD [OF w] have wl: "w < length (threads s)" and ww: "?pcs ! w = WriteWait"
        by simp_all
      from ww t have wt: "w \<noteq> t" by (auto simp: nth_list_update split: if_splits)
      with ww have "threads s ! w = WriteWait" by simp
      moreover have "threads s' ! w = WriteWoken" using p wl by simp
      moreover have "blocked_threads (\<lambda>pc. pc = WriteWait) (threads s) \<noteq> []"
        using w bw by auto
      moreover have "blocked_threads (\<lambda>pc. pc = ReadWait) (threads s') =
              blocked_threads (\<lambda>pc. pc = ReadWait) (threads s)"
        unfolding p using wl ww br by (simp add: blocked_threads_update_other)
      ultimately show ?thesis using True wk by simp
    qed
  next
    case False
    then have d: "notify_all (\<lambda>pc. pc = ReadWait) (\<lambda>_. ReadWoken) ?pcs = (woken, threads s')"
      using assms(2)
      by (auto simp: rw_writeUnlock_def writeUnlock_def Let_def cv_blocked_def cv_woken_def
          split: prod.splits)
    then have wk: "woken = blocked_threads (\<lambda>pc. pc = ReadWait) (threads s)"
      and p: "threads s' = map (\<lambda>pc. if pc = ReadWait then ReadWoken else pc) ?pcs"
      using br by (auto simp: notify_all_def)
    have "threads s' ! r = ReadWoken" if "r \<in> set woken" for r
    proof -
      from that wk br have "r \<in> set (blocked_threads (\<lambda>pc. pc = ReadWait) ?pcs)" by simp
      from blocked_threadsD [OF this] show ?thesis unfolding p by simp
    qed
    with False wk show ?thesis by simp
  qed
qed

theorem writeUnlock_wakes_witness:
  "rw_writeUnlock 0 0 (rw_run [WriteLock 0, WriteLock 1, WriteLock 2] (rw_init 3))
     = ([1], \<lparr>rwlock = \<lparr>readers = 0, writers = 0, waitingWriters = 2\<rparr>,
             threads = [Outside, WriteWoken, WriteWait]\<rparr>) \<and>
   rw_writeUnlock 0 0 (rw_run [WriteLock 0, ReadLock 1, ReadLock 2] (rw_init 3))
     = ([1, 2], \<lparr>rwlock = \<lparr>readers = 0, writers = 0, waitingWriters = 0\<rparr>,
             threads = [Outside, ReadWoken, ReadWoken]\<rparr>)"
proof -
  have a: "pc_of (rw_run [WriteLock 0, WriteLock 1, WriteLock 2] (rw_init 3)) 0 = Some Writing"
    by code_simp
  have b: "pc_of (rw_run [WriteLock 0, ReadLock 1, ReadLock 2] (rw_init 3)) 0 = Some Writing"
    by code_simp
  have c: "rw_writeUnlock 0 0 (rw_run [WriteLock 0, WriteLock 1, WriteLock 2] (rw_init 3))
     = ([1], \<lparr>rwlock = \<lparr>readers = 0, writers = 0, waitingWriters = 2\<rparr>,
             threads = [Outside, WriteWoken, WriteWait]\<rparr>)"
    by code_simp
  have d: "rw_writeUnlock 0 0 (rw_run [WriteLock 0, ReadLock 1, ReadLock 2] (rw_init 3))
     = ([1, 2], \<lparr>rwlock = \<lparr>readers = 0, writers = 0, waitingWriters = 0\<rparr>,
             threads = [Outside, ReadWoken, ReadWoken]\<rparr>)"
    by code_simp
  from writeUnlock_wakes [OF a c] writeUnlock_wakes [OF b d] c d show ?thesis by simp
qed

section \<open>Properties of the barrier\<close>









end
